theory Spec2Isabelle
  imports Main
begin

section \<open>Data model\<close>

text \<open>
  The board is a JavaScript array of three rows, each an array of three strings:
  the empty string for a free cell, \<open>''X''\<close> for the human player (the minimizer) and
  \<open>''O''\<close> for the computer (the maximizer). The browser variant of the program is the
  same code with two other string literals for the marks.
\<close>

type_synonym board = "string list list"

text \<open>A move is the object \<open>{ i, j }\<close>; the fields are integers because the
  initial \<open>bestMove\<close> of \<open>makeComputerMove\<close> is \<open>{ i: -1, j: -1 }\<close>.\<close>

record move =
  move_i :: int
  move_j :: int

text \<open>
  Scores and \<open>depth\<close> are JavaScript numbers, that is, IEEE doubles. The program
  passes depth 0 and adds 1 for every mark it writes, so every number it computes is
  a small integer, and the model takes \<open>int\<close> with the two infinities the loops
  start from. The arithmetic of the model and of the program agree as long as the
  integers stay within \<open>2 ^ 53\<close> in absolute value; a theorem that states a score
  for a depth chosen freely carries that bound, or a smaller one, as a hypothesis.
\<close>

datatype jsnum = NegInfinity | Num int | Infinity

datatype error = TypeError

text \<open>A well-formed board has three rows of three cells; every index the program
  reads is then inside the arrays.\<close>

definition wf_board :: "board \<Rightarrow> bool" where
  "wf_board board = (length board = 3 \<and> list_all (\<lambda>row. length row = 3) board)"

definition empty_board :: board where
  "empty_board = [['''', '''', ''''], ['''', '''', ''''], ['''', '''', '''']]"

subsection \<open>Arithmetic of scores\<close>

fun js_max :: "jsnum \<Rightarrow> jsnum \<Rightarrow> jsnum" where
  "js_max Infinity _ = Infinity"
| "js_max _ Infinity = Infinity"
| "js_max NegInfinity y = y"
| "js_max x NegInfinity = x"
| "js_max (Num x) (Num y) = Num (max x y)"

fun js_min :: "jsnum \<Rightarrow> jsnum \<Rightarrow> jsnum" where
  "js_min NegInfinity _ = NegInfinity"
| "js_min _ NegInfinity = NegInfinity"
| "js_min Infinity y = y"
| "js_min x Infinity = x"
| "js_min (Num x) (Num y) = Num (min x y)"

fun js_gt :: "jsnum \<Rightarrow> jsnum \<Rightarrow> bool" where
  "js_gt NegInfinity _ = False"
| "js_gt _ Infinity = False"
| "js_gt _ NegInfinity = True"
| "js_gt Infinity _ = True"
| "js_gt (Num x) (Num y) = (x > y)"

section \<open>Board queries\<close>

text \<open>\<open>checkWinner\<close>: the loop over \<open>i = 0, 1, 2\<close> tests row \<open>i\<close> and column \<open>i\<close>
  and returns at the first hit; the two diagonals are tested after the loop. Cells
  and \<open>player\<close> are strings, on which \<open>==\<close> is equality.\<close>

definition checkWinner :: "board \<Rightarrow> string \<Rightarrow> bool" where
  "checkWinner board player =
     (if list_ex (\<lambda>i.
           (board ! i ! 0 = player \<and> board ! i ! 1 = player \<and> board ! i ! 2 = player) \<or>
           (board ! 0 ! i = player \<and> board ! 1 ! i = player \<and> board ! 2 ! i = player))
         [0 ..< 3]
      then True
      else if (board ! 0 ! 0 = player \<and> board ! 1 ! 1 = player \<and> board ! 2 ! 2 = player) \<or>
              (board ! 0 ! 2 = player \<and> board ! 1 ! 1 = player \<and> board ! 2 ! 0 = player)
      then True
      else False)"

definition isBoardFull :: "board \<Rightarrow> bool" where
  "isBoardFull board =
     (if list_ex (\<lambda>i. list_ex (\<lambda>j. board ! i ! j = '''') [0 ..< 3]) [0 ..< 3]
      then False else True)"

text \<open>\<open>getAvailableMoves\<close>: two nested counting loops pushing \<open>{ i, j }\<close> onto
  \<open>moves\<close> for every free cell.\<close>

definition getAvailableMoves :: "board \<Rightarrow> move list" where
  "getAvailableMoves board =
     fold (\<lambda>i moves.
        fold (\<lambda>j moves.
           if board ! i ! j = ''''
           then moves @ [\<lparr>move_i = int i, move_j = int j\<rparr>]
           else moves)
          [0 ..< 3] moves)
       [0 ..< 3] []"

section \<open>In-place writes\<close>

text \<open>
  The assignment \<open>board[move.i][move.j] = v\<close>. When \<open>move.i\<close> is no index of the
  board, \<open>board[move.i]\<close> is \<open>undefined\<close> and the assignment throws a TypeError.
  When the row exists and \<open>move.j\<close> is one of its indices, the assignment is a list
  update. When the row exists and \<open>move.j\<close> is not one of its indices, JavaScript
  leaves the cells the row has and sets a new property; for an index past the end
  this also makes the row longer. A row of strings cannot hold the cells added that
  way, so in this last case the model is not exact: it returns the board as it is.
  The case does not occur in the program on a well-formed board: lemma
  \<open>try_move\<close> and the theorems on \<open>makeComputerMove\<close> show that every write is
  inside the grid or fails the test on the row.
\<close>

definition store :: "board \<Rightarrow> move \<Rightarrow> string \<Rightarrow> error + board" where
  "store board mv v =
     (if move_i mv < 0 \<or> int (length board) \<le> move_i mv then Inl TypeError
      else if move_j mv < 0 \<or> int (length (board ! nat (move_i mv))) \<le> move_j mv
      then Inr board
      else Inr (board[nat (move_i mv) :=
                  (board ! nat (move_i mv))[nat (move_j mv) := v]]))"

section \<open>The search\<close>

text \<open>
  \<open>minimax\<close> mutates the board it is given and calls itself on it, so the model
  threads the board through every call and returns it with the score. A result is
  \<open>None\<close> when the recursion is deeper than the bound given as first argument of
  \<open>minimax\<close>, \<open>Some (Inl e)\<close> when the call throws \<open>e\<close>, and
  \<open>Some (Inr (score, board))\<close> when it returns \<open>score\<close> and leaves \<open>board\<close>.

  The two \<open>for\<close> loops of \<open>minimax\<close> come first; their parameter \<open>self\<close> is the
  recursive call \<open>minimax\<close> they make, and \<open>bestScore\<close> and \<open>board\<close> are the
  variables they update.
\<close>

type_synonym 'a result = "(error + 'a) option"

fun minimax_max_loop ::
  "(board \<Rightarrow> int \<Rightarrow> bool \<Rightarrow> (jsnum \<times> board) result) \<Rightarrow>
   move list \<Rightarrow> int \<Rightarrow> jsnum \<Rightarrow> board \<Rightarrow> (jsnum \<times> board) result"
where
  "minimax_max_loop self [] depth bestScore board = Some (Inr (bestScore, board))"
| "minimax_max_loop self (mv # moves) depth bestScore board =
     (case store board mv ''O'' of
        Inl e \<Rightarrow> Some (Inl e)
      | Inr board1 \<Rightarrow>
         (case self board1 (depth + 1) False of
            None \<Rightarrow> None
          | Some (Inl e) \<Rightarrow> Some (Inl e)
          | Some (Inr (score, board2)) \<Rightarrow>
             (case store board2 mv '''' of
                Inl e \<Rightarrow> Some (Inl e)
              | Inr board3 \<Rightarrow>
                  minimax_max_loop self moves depth (js_max score bestScore) board3)))"

fun minimax_min_loop ::
  "(board \<Rightarrow> int \<Rightarrow> bool \<Rightarrow> (jsnum \<times> board) result) \<Rightarrow>
   move list \<Rightarrow> int \<Rightarrow> jsnum \<Rightarrow> board \<Rightarrow> (jsnum \<times> board) result"
where
  "minimax_min_loop self [] depth bestScore board = Some (Inr (bestScore, board))"
| "minimax_min_loop self (mv # moves) depth bestScore board =
     (case store board mv ''X'' of
        Inl e \<Rightarrow> Some (Inl e)
      | Inr board1 \<Rightarrow>
         (case self board1 (depth + 1) True of
            None \<Rightarrow> None
          | Some (Inl e) \<Rightarrow> Some (Inl e)
          | Some (Inr (score, board2)) \<Rightarrow>
             (case store board2 mv '''' of
                Inl e \<Rightarrow> Some (Inl e)
              | Inr board3 \<Rightarrow>
                  minimax_min_loop self moves depth (js_min score bestScore) board3)))"

primrec minimax :: "nat \<Rightarrow> board \<Rightarrow> int \<Rightarrow> bool \<Rightarrow> (jsnum \<times> board) result" where
  "minimax 0 board depth isMaximizing = None"
| "minimax (Suc n) board depth isMaximizing =
     (if checkWinner board ''O'' then Some (Inr (Num (10 - depth), board))
      else if checkWinner board ''X'' then Some (Inr (Num (depth - 10), board))
      else if isBoardFull board then Some (Inr (Num 0, board))
      else if isMaximizing
      then minimax_max_loop (minimax n) (getAvailableMoves board) depth NegInfinity board
      else minimax_min_loop (minimax n) (getAvailableMoves board) depth Infinity board)"

text \<open>The loop of \<open>makeComputerMove\<close>, with its three variables \<open>bestMove\<close>,
  \<open>bestScore\<close> and the board. The first argument of \<open>makeComputerMove\<close> is the
  bound on the recursion of every call of \<open>minimax\<close> it makes. The function has no
  return value: its result is the board after the final write.\<close>

fun makeComputerMove_loop ::
  "nat \<Rightarrow> move list \<Rightarrow> move \<Rightarrow> jsnum \<Rightarrow> board \<Rightarrow> (move \<times> jsnum \<times> board) result"
where
  "makeComputerMove_loop n [] bestMove bestScore board = Some (Inr (bestMove, bestScore, board))"
| "makeComputerMove_loop n (mv # moves) bestMove bestScore board =
     (case store board mv ''O'' of
        Inl e \<Rightarrow> Some (Inl e)
      | Inr board1 \<Rightarrow>
         (case minimax n board1 0 False of
            None \<Rightarrow> None
          | Some (Inl e) \<Rightarrow> Some (Inl e)
          | Some (Inr (score, board2)) \<Rightarrow>
             (case store board2 mv '''' of
                Inl e \<Rightarrow> Some (Inl e)
              | Inr board3 \<Rightarrow>
                  if js_gt score bestScore
                  then makeComputerMove_loop n moves mv score board3
                  else makeComputerMove_loop n moves bestMove bestScore board3)))"

definition makeComputerMove :: "nat \<Rightarrow> board \<Rightarrow> board result" where
  "makeComputerMove n board =
     (case makeComputerMove_loop n (getAvailableMoves board)
             \<lparr>move_i = - 1, move_j = - 1\<rparr> NegInfinity board of
        None \<Rightarrow> None
      | Some (Inl e) \<Rightarrow> Some (Inl e)
      | Some (Inr (bestMove, bestScore, board')) \<Rightarrow> Some (store board' bestMove ''O''))"

section \<open>Auxiliary notions for the proofs\<close>

text \<open>
  None of the following is code of the program. \<open>in_grid\<close>, \<open>cell_at\<close> and
  \<open>put\<close> name the reads and writes at a move inside the grid, \<open>all_moves\<close> is
  the grid in row-major order, and \<open>empties\<close> counts the free cells; the depth of the
  recursion of \<open>minimax\<close> is bounded by it.
\<close>

definition in_grid :: "move \<Rightarrow> bool" where
  "in_grid mv = (0 \<le> move_i mv \<and> move_i mv < 3 \<and> 0 \<le> move_j mv \<and> move_j mv < 3)"

definition cell_at :: "board \<Rightarrow> move \<Rightarrow> string" where
  "cell_at board mv = board ! nat (move_i mv) ! nat (move_j mv)"

definition put :: "board \<Rightarrow> move \<Rightarrow> string \<Rightarrow> board" where
  "put board mv v = board[nat (move_i mv) := (board ! nat (move_i mv))[nat (move_j mv) := v]]"

definition all_moves :: "move list" where
  "all_moves =
     [\<lparr>move_i = 0, move_j = 0\<rparr>, \<lparr>move_i = 0, move_j = 1\<rparr>, \<lparr>move_i = 0, move_j = 2\<rparr>,
      \<lparr>move_i = 1, move_j = 0\<rparr>, \<lparr>move_i = 1, move_j = 1\<rparr>, \<lparr>move_i = 1, move_j = 2\<rparr>,
      \<lparr>move_i = 2, move_j = 0\<rparr>, \<lparr>move_i = 2, move_j = 1\<rparr>, \<lparr>move_i = 2, move_j = 2\<rparr>]"

definition empties :: "board \<Rightarrow> nat" where
  "empties board = length (getAvailableMoves board)"

definition row_major_before :: "move \<Rightarrow> move \<Rightarrow> bool" where
  "row_major_before a b =
     (move_i a < move_i b \<or> (move_i a = move_i b \<and> move_j a < move_j b))"

text \<open>The eight lines: three rows, three columns, two diagonals.\<close>

definition win_lines :: "move list list" where
  "win_lines =
     [[\<lparr>move_i = 0, move_j = 0\<rparr>, \<lparr>move_i = 0, move_j = 1\<rparr>, \<lparr>move_i = 0, move_j = 2\<rparr>],
      [\<lparr>move_i = 1, move_j = 0\<rparr>, \<lparr>move_i = 1, move_j = 1\<rparr>, \<lparr>move_i = 1, move_j = 2\<rparr>],
      [\<lparr>move_i = 2, move_j = 0\<rparr>, \<lparr>move_i = 2, move_j = 1\<rparr>, \<lparr>move_i = 2, move_j = 2\<rparr>],
      [\<lparr>move_i = 0, move_j = 0\<rparr>, \<lparr>move_i = 1, move_j = 0\<rparr>, \<lparr>move_i = 2, move_j = 0\<rparr>],
      [\<lparr>move_i = 0, move_j = 1\<rparr>, \<lparr>move_i = 1, move_j = 1\<rparr>, \<lparr>move_i = 2, move_j = 1\<rparr>],
      [\<lparr>move_i = 0, move_j = 2\<rparr>, \<lparr>move_i = 1, move_j = 2\<rparr>, \<lparr>move_i = 2, move_j = 2\<rparr>],
      [\<lparr>move_i = 0, move_j = 0\<rparr>, \<lparr>move_i = 1, move_j = 1\<rparr>, \<lparr>move_i = 2, move_j = 2\<rparr>],
      [\<lparr>move_i = 0, move_j = 2\<rparr>, \<lparr>move_i = 1, move_j = 1\<rparr>, \<lparr>move_i = 2, move_j = 0\<rparr>]]"

text \<open>
  The score \<open>minimax\<close> returns, as a function of the position alone: the board
  is copied for every move instead of being written and restored. Lemma
  \<open>minimax_game_value\<close> shows that \<open>minimax\<close> computes it.
\<close>

primrec game_value :: "nat \<Rightarrow> board \<Rightarrow> int \<Rightarrow> bool \<Rightarrow> int" where
  "game_value 0 board depth isMaximizing = 0"
| "game_value (Suc n) board depth isMaximizing =
     (if checkWinner board ''O'' then 10 - depth
      else if checkWinner board ''X'' then depth - 10
      else if isBoardFull board then 0
      else if isMaximizing
      then Max ((\<lambda>mv. game_value n (put board mv ''O'') (depth + 1) False)
                 ` set (getAvailableMoves board))
      else Min ((\<lambda>mv. game_value n (put board mv ''X'') (depth + 1) True)
                 ` set (getAvailableMoves board)))"

text \<open>One step of the loop of \<open>makeComputerMove\<close> on the pair
  \<open>(bestMove, bestScore)\<close>, for the scores \<open>f\<close> of the moves.\<close>

definition keep_best :: "(move \<Rightarrow> int) \<Rightarrow> move \<Rightarrow> move \<times> jsnum \<Rightarrow> move \<times> jsnum" where
  "keep_best f mv best = (if js_gt (Num (f mv)) (snd best) then (mv, Num (f mv)) else best)"

text \<open>
  Positions with the maximizer to move. \<open>wins_in_one\<close>: the game is not over and
  some legal move completes a line of \<open>''O''\<close>. \<open>wins_in_three\<close>: the game is not
  over, no move wins at once, and some move leaves a position, itself not over, in
  which every reply of the minimizer leads to a position that \<open>wins_in_one\<close>.
\<close>

definition non_terminal :: "board \<Rightarrow> bool" where
  "non_terminal board =
     (\<not> checkWinner board ''O'' \<and> \<not> checkWinner board ''X'' \<and> \<not> isBoardFull board)"

definition wins_in_one :: "board \<Rightarrow> bool" where
  "wins_in_one board =
     (non_terminal board \<and>
      list_ex (\<lambda>mv. checkWinner (put board mv ''O'') ''O'') (getAvailableMoves board))"

definition wins_in_three :: "board \<Rightarrow> bool" where
  "wins_in_three board =
     (non_terminal board \<and> \<not> wins_in_one board \<and>
      list_ex (\<lambda>mv. non_terminal (put board mv ''O'') \<and>
                 list_all (\<lambda>mv'. wins_in_one (put (put board mv ''O'') mv' ''X''))
                   (getAvailableMoves (put board mv ''O'')))
        (getAvailableMoves board))"

text \<open>
  Two decision procedures for bounds on the game value. \<open>value_at_least\<close> decides
  that the maximizer can hold the score at \<open>k\<close> or more: where the maximizer is to
  move it looks for one good move, trying the free cells in a given order, and
  where the minimizer is to move it checks every reply. \<open>value_at_most\<close> is the
  same for the minimizer. Both stop at the first move that settles a position, so
  they visit a small part of the game tree.
\<close>

fun exists_reply :: "(board \<Rightarrow> bool) \<Rightarrow> string \<Rightarrow> move list \<Rightarrow> board \<Rightarrow> bool" where
  "exists_reply ok mark [] board = False"
| "exists_reply ok mark (mv # order) board =
     (if cell_at board mv = ''''
      then (if ok (put board mv mark) then True else exists_reply ok mark order board)
      else exists_reply ok mark order board)"

fun all_replies :: "(board \<Rightarrow> bool) \<Rightarrow> string \<Rightarrow> move list \<Rightarrow> board \<Rightarrow> bool" where
  "all_replies ok mark [] board = True"
| "all_replies ok mark (mv # ms) board =
     (if ok (put board mv mark) then all_replies ok mark ms board else False)"

primrec value_at_least :: "move list \<Rightarrow> int \<Rightarrow> nat \<Rightarrow> board \<Rightarrow> int \<Rightarrow> bool \<Rightarrow> bool" where
  "value_at_least order k 0 board depth isMaximizing = False"
| "value_at_least order k (Suc n) board depth isMaximizing =
     (if checkWinner board ''O'' then k \<le> 10 - depth
      else if checkWinner board ''X'' then k \<le> depth - 10
      else if isBoardFull board then k \<le> 0
      else if isMaximizing
      then exists_reply (\<lambda>b. value_at_least order k n b (depth + 1) False) ''O'' order board
      else all_replies (\<lambda>b. value_at_least order k n b (depth + 1) True) ''X''
             (getAvailableMoves board) board)"

primrec value_at_most :: "move list \<Rightarrow> int \<Rightarrow> nat \<Rightarrow> board \<Rightarrow> int \<Rightarrow> bool \<Rightarrow> bool" where
  "value_at_most order k 0 board depth isMaximizing = False"
| "value_at_most order k (Suc n) board depth isMaximizing =
     (if checkWinner board ''O'' then 10 - depth \<le> k
      else if checkWinner board ''X'' then depth - 10 \<le> k
      else if isBoardFull board then 0 \<le> k
      else if isMaximizing
      then all_replies (\<lambda>b. value_at_most order k n b (depth + 1) False) ''O''
             (getAvailableMoves board) board
      else exists_reply (\<lambda>b. value_at_most order k n b (depth + 1) True) ''X'' order board)"

definition maximizer_order :: "move list" where
  "maximizer_order =
     [\<lparr>move_i = 2, move_j = 0\<rparr>, \<lparr>move_i = 0, move_j = 0\<rparr>, \<lparr>move_i = 1, move_j = 0\<rparr>,
      \<lparr>move_i = 1, move_j = 1\<rparr>, \<lparr>move_i = 0, move_j = 2\<rparr>, \<lparr>move_i = 1, move_j = 2\<rparr>,
      \<lparr>move_i = 2, move_j = 2\<rparr>, \<lparr>move_i = 0, move_j = 1\<rparr>, \<lparr>move_i = 2, move_j = 1\<rparr>]"

definition minimizer_order :: "move list" where
  "minimizer_order =
     [\<lparr>move_i = 1, move_j = 1\<rparr>, \<lparr>move_i = 2, move_j = 0\<rparr>, \<lparr>move_i = 0, move_j = 2\<rparr>,
      \<lparr>move_i = 2, move_j = 2\<rparr>, \<lparr>move_i = 2, move_j = 1\<rparr>, \<lparr>move_i = 0, move_j = 1\<rparr>,
      \<lparr>move_i = 1, move_j = 0\<rparr>, \<lparr>move_i = 1, move_j = 2\<rparr>, \<lparr>move_i = 0, move_j = 0\<rparr>]"

section \<open>Reads and writes on a well-formed board\<close>

lemma upt_0_3: "[0 ..< 3] = [0, 1, 2]"
  by (simp add: upt_rec)

lemma fold_push:
  "fold (\<lambda>x acc. if P x then acc @ [f x] else acc) xs acc = acc @ map f (filter P xs)"
  by (induction xs arbitrary: acc) simp_all

lemma getAvailableMoves_filter:
  "getAvailableMoves board = filter (\<lambda>mv. cell_at board mv = '''') all_moves"
  unfolding getAvailableMoves_def fold_push
  by (simp add: upt_0_3 all_moves_def cell_at_def)

lemma in_grid_all_moves: "mv \<in> set all_moves \<longleftrightarrow> in_grid mv"
proof
  assume "mv \<in> set all_moves"
  then show "in_grid mv" by (auto simp: all_moves_def in_grid_def)
next
  assume g: "in_grid mv"
  then have "move_i mv \<in> {0, 1, 2}" and "move_j mv \<in> {0, 1, 2}"
    by (auto simp: in_grid_def)
  moreover have "mv = \<lparr>move_i = move_i mv, move_j = move_j mv\<rparr>" by simp
  ultimately show "mv \<in> set all_moves"
    unfolding all_moves_def by (cases mv) auto
qed

lemma set_getAvailableMoves:
  "mv \<in> set (getAvailableMoves board) \<longleftrightarrow> in_grid mv \<and> cell_at board mv = ''''"
  by (auto simp: getAvailableMoves_filter in_grid_all_moves)

lemma wf_board_rows:
  assumes "wf_board board" and "r < 3"
  shows "length (board ! r) = 3"
  using assms by (auto simp: wf_board_def list_all_length)

lemma wf_board_put:
  assumes "wf_board board"
  shows "wf_board (put board mv v)"
proof (cases "nat (move_i mv) < length board")
  case True
  with assms show ?thesis
    by (auto simp: wf_board_def put_def list_all_length nth_list_update)
next
  case False
  with assms show ?thesis
    by (simp add: put_def list_update_beyond)
qed

lemma store_put:
  "wf_board board \<Longrightarrow> in_grid mv \<Longrightarrow> store board mv v = Inr (put board mv v)"
  by (auto simp: store_def put_def in_grid_def wf_board_def list_all_length)

lemma cell_at_put:
  assumes "wf_board board" "in_grid mv" "in_grid mv'"
  shows "cell_at (put board mv v) mv' = (if mv' = mv then v else cell_at board mv')"
proof -
  have l: "length board = 3" using assms(1) by (simp add: wf_board_def)
  have i: "nat (move_i mv) < 3" "nat (move_j mv) < 3" "nat (move_i mv') < 3" "nat (move_j mv') < 3"
    using assms(2,3) by (auto simp: in_grid_def)
  have r: "length (board ! nat (move_i mv)) = 3"
    using wf_board_rows[OF assms(1) i(1)] .
  have e: "mv' = mv \<longleftrightarrow> nat (move_i mv') = nat (move_i mv) \<and> nat (move_j mv') = nat (move_j mv)"
    using assms(2,3) by (cases mv; cases mv') (auto simp: in_grid_def)
  show ?thesis
    unfolding cell_at_def put_def e using l i r
    by (auto simp: nth_list_update)
qed

lemma put_put: "put (put board mv v) mv w = put board mv w"
  by (cases "nat (move_i mv) < length board") (simp_all add: put_def list_update_beyond)

lemma put_same:
  "cell_at board mv = v \<Longrightarrow> put board mv v = board"
proof -
  have "put board mv (cell_at board mv) = board"
    by (simp add: put_def cell_at_def)
  then show "cell_at board mv = v \<Longrightarrow> put board mv v = board" by simp
qed

lemma empties_put:
  assumes "wf_board board" "mv \<in> set (getAvailableMoves board)" "v \<noteq> ''''"
  shows "empties (put board mv v) < empties board"
proof -
  have g: "in_grid mv" and c: "cell_at board mv = ''''"
    using assms(2) by (simp_all add: set_getAvailableMoves)
  have "getAvailableMoves (put board mv v) = filter (\<lambda>m. m \<noteq> mv) (getAvailableMoves board)"
    unfolding getAvailableMoves_filter filter_filter
    by (rule filter_cong) (auto simp: in_grid_all_moves cell_at_put[OF assms(1) g] assms(3) c)
  then show ?thesis
    unfolding empties_def using assms(2) by (simp add: length_filter_less)
qed

lemma isBoardFull_iff: "isBoardFull board \<longleftrightarrow> getAvailableMoves board = []"
  unfolding getAvailableMoves_filter
  by (simp add: isBoardFull_def upt_0_3 all_moves_def cell_at_def)

section \<open>The search returns the game value and restores the board\<close>

lemma Max_insert_max:
  "finite S \<Longrightarrow> Max (insert (max x a) S) = Max (insert a (insert x S))"
  by (cases "S = {}") (simp_all add: max.assoc max.commute max.left_commute)

lemma Min_insert_min:
  "finite S \<Longrightarrow> Min (insert (min x a) S) = Min (insert a (insert x S))"
  by (cases "S = {}") (simp_all add: min.assoc min.commute min.left_commute)

lemma fold_js_max_Num:
  "fold (\<lambda>mv acc. js_max (Num (f mv)) acc) ms (Num a) = Num (Max (insert a (f ` set ms)))"
proof (induction ms arbitrary: a)
  case Nil
  show ?case by simp
next
  case (Cons mv ms)
  show ?case by (simp add: Cons.IH Max_insert_max)
qed

lemma fold_js_min_Num:
  "fold (\<lambda>mv acc. js_min (Num (f mv)) acc) ms (Num a) = Num (Min (insert a (f ` set ms)))"
proof (induction ms arbitrary: a)
  case Nil
  show ?case by simp
next
  case (Cons mv ms)
  show ?case by (simp add: Cons.IH Min_insert_min)
qed

lemma fold_js_max_start:
  "ms \<noteq> [] \<Longrightarrow>
   fold (\<lambda>mv acc. js_max (Num (f mv)) acc) ms NegInfinity = Num (Max (f ` set ms))"
  by (cases ms) (simp_all add: fold_js_max_Num)

lemma fold_js_min_start:
  "ms \<noteq> [] \<Longrightarrow>
   fold (\<lambda>mv acc. js_min (Num (f mv)) acc) ms Infinity = Num (Min (f ` set ms))"
  by (cases ms) (simp_all add: fold_js_min_Num)

lemma try_move:
  assumes "wf_board board" "mv \<in> set (getAvailableMoves board)" "v \<noteq> ''''"
  shows "store board mv v = Inr (put board mv v)"
    and "wf_board (put board mv v)"
    and "empties (put board mv v) < empties board"
    and "store (put board mv v) mv '''' = Inr board"
proof -
  have g: "in_grid mv" and c: "cell_at board mv = ''''"
    using assms(2) by (simp_all add: set_getAvailableMoves)
  show "store board mv v = Inr (put board mv v)"
    by (rule store_put[OF assms(1) g])
  show w: "wf_board (put board mv v)"
    by (rule wf_board_put[OF assms(1)])
  show "empties (put board mv v) < empties board"
    by (rule empties_put[OF assms])
  show "store (put board mv v) mv '''' = Inr board"
    by (simp add: store_put[OF w g] put_put put_same[OF c])
qed

lemma minimax_max_loop_fold:
  assumes self: "\<And>b d m. wf_board b \<Longrightarrow> empties b < n \<Longrightarrow> self b d m = Some (Inr (Num (g b d m), b))"
    and wf: "wf_board board" and e: "empties board \<le> n"
    and sub: "set ms \<subseteq> set (getAvailableMoves board)"
  shows "minimax_max_loop self ms depth best board =
         Some (Inr (fold (\<lambda>mv acc. js_max (Num (g (put board mv ''O'') (depth + 1) False)) acc) ms best,
                    board))"
  using sub
proof (induction ms arbitrary: best)
  case Nil
  show ?case by simp
next
  case (Cons mv ms)
  have m: "mv \<in> set (getAvailableMoves board)" using Cons.prems by simp
  note t = try_move[OF wf m, of "''O''", simplified]
  have s: "self (put board mv ''O'') (depth + 1) False =
           Some (Inr (Num (g (put board mv ''O'') (depth + 1) False), put board mv ''O''))"
    using t(3) e by (intro self t(2)) simp
  have "set ms \<subseteq> set (getAvailableMoves board)" using Cons.prems by simp
  from Cons.IH[OF this] show ?case
    by (simp add: t(1) t(4) s)
qed

lemma minimax_min_loop_fold:
  assumes self: "\<And>b d m. wf_board b \<Longrightarrow> empties b < n \<Longrightarrow> self b d m = Some (Inr (Num (g b d m), b))"
    and wf: "wf_board board" and e: "empties board \<le> n"
    and sub: "set ms \<subseteq> set (getAvailableMoves board)"
  shows "minimax_min_loop self ms depth best board =
         Some (Inr (fold (\<lambda>mv acc. js_min (Num (g (put board mv ''X'') (depth + 1) True)) acc) ms best,
                    board))"
  using sub
proof (induction ms arbitrary: best)
  case Nil
  show ?case by simp
next
  case (Cons mv ms)
  have m: "mv \<in> set (getAvailableMoves board)" using Cons.prems by simp
  note t = try_move[OF wf m, of "''X''", simplified]
  have s: "self (put board mv ''X'') (depth + 1) True =
           Some (Inr (Num (g (put board mv ''X'') (depth + 1) True), put board mv ''X''))"
    using t(3) e by (intro self t(2)) simp
  have "set ms \<subseteq> set (getAvailableMoves board)" using Cons.prems by simp
  from Cons.IH[OF this] show ?case
    by (simp add: t(1) t(4) s)
qed

lemma minimax_game_value:
  "wf_board board \<Longrightarrow> empties board < n \<Longrightarrow>
   minimax n board depth isMaximizing =
     Some (Inr (Num (game_value n board depth isMaximizing), board))"
proof (induction n arbitrary: board depth isMaximizing)
  case 0
  then show ?case by simp
next
  case (Suc n)
  have e: "empties board \<le> n" using Suc.prems(2) by simp
  show ?case
  proof (cases "checkWinner board ''O'' \<or> checkWinner board ''X'' \<or> isBoardFull board")
    case True
    then show ?thesis by auto
  next
    case False
    then have ne: "getAvailableMoves board \<noteq> []" by (simp add: isBoardFull_iff)
    show ?thesis
    proof (cases isMaximizing)
      case True
      have "minimax (Suc n) board depth isMaximizing =
            minimax_max_loop (minimax n) (getAvailableMoves board) depth NegInfinity board"
        using False True by simp
      also have "\<dots> = Some (Inr (fold (\<lambda>mv acc. js_max (Num (game_value n (put board mv ''O'') (depth + 1) False)) acc)
                        (getAvailableMoves board) NegInfinity, board))"
        by (rule minimax_max_loop_fold[OF Suc.IH Suc.prems(1) e]) simp_all
      finally show ?thesis
        using False True by (simp add: fold_js_max_start[OF ne])
    next
      case F: False
      have "minimax (Suc n) board depth isMaximizing =
            minimax_min_loop (minimax n) (getAvailableMoves board) depth Infinity board"
        using False F by simp
      also have "\<dots> = Some (Inr (fold (\<lambda>mv acc. js_min (Num (game_value n (put board mv ''X'') (depth + 1) True)) acc)
                        (getAvailableMoves board) Infinity, board))"
        by (rule minimax_min_loop_fold[OF Suc.IH Suc.prems(1) e]) simp_all
      finally show ?thesis
        using False F by (simp add: fold_js_min_start[OF ne])
    qed
  qed
qed

section \<open>Lines and the order of the legal moves\<close>

lemma checkWinner_lines:
  "checkWinner board player \<longleftrightarrow>
   (\<exists>line \<in> set win_lines. \<forall>mv \<in> set line. cell_at board mv = player)"
  by (simp add: checkWinner_def win_lines_def cell_at_def upt_0_3)

lemma all_moves_sorted: "sorted_wrt row_major_before all_moves"
  by (simp add: all_moves_def row_major_before_def)

lemma all_moves_distinct: "distinct all_moves"
  by (simp add: all_moves_def)

section \<open>The loop of \<open>makeComputerMove\<close>\<close>

lemma makeComputerMove_loop_fold:
  assumes wf: "wf_board board" and e: "empties board \<le> n"
    and sub: "set ms \<subseteq> set (getAvailableMoves board)"
  shows "makeComputerMove_loop n ms bestMove bestScore board =
         Some (Inr (fst (fold (keep_best (\<lambda>mv. game_value n (put board mv ''O'') 0 False)) ms
                           (bestMove, bestScore)),
                    snd (fold (keep_best (\<lambda>mv. game_value n (put board mv ''O'') 0 False)) ms
                           (bestMove, bestScore)),
                    board))"
  using sub
proof (induction ms arbitrary: bestMove bestScore)
  case Nil
  show ?case by simp
next
  case (Cons mv ms)
  have m: "mv \<in> set (getAvailableMoves board)" using Cons.prems by simp
  note t = try_move[OF wf m, of "''O''", simplified]
  have s: "minimax n (put board mv ''O'') 0 False =
           Some (Inr (Num (game_value n (put board mv ''O'') 0 False), put board mv ''O''))"
    using t(3) e by (intro minimax_game_value t(2)) simp
  have r: "set ms \<subseteq> set (getAvailableMoves board)" using Cons.prems by simp
  show ?case
    by (simp add: t(1) t(4) s Cons.IH[OF r] keep_best_def)
qed

lemma fold_keep_best_first:
  "ms \<noteq> [] \<Longrightarrow>
   \<exists>k<length ms.
     fold (keep_best f) ms (bestMove, NegInfinity) = (ms ! k, Num (f (ms ! k))) \<and>
     (\<forall>l<length ms. f (ms ! l) \<le> f (ms ! k)) \<and>
     (\<forall>l<k. f (ms ! l) < f (ms ! k))"
proof (induction ms rule: rev_induct)
  case Nil
  then show ?case by simp
next
  case (snoc x xs)
  show ?case
  proof (cases "xs = []")
    case True
    then show ?thesis by (simp add: keep_best_def)
  next
    case False
    from snoc.IH[OF False] obtain k where k: "k < length xs"
      and fk: "fold (keep_best f) xs (bestMove, NegInfinity) = (xs ! k, Num (f (xs ! k)))"
      and mx: "\<forall>l<length xs. f (xs ! l) \<le> f (xs ! k)"
      and fst: "\<forall>l<k. f (xs ! l) < f (xs ! k)"
      by blast
    show ?thesis
    proof (cases "f (xs ! k) < f x")
      case True
      have "fold (keep_best f) (xs @ [x]) (bestMove, NegInfinity) = (x, Num (f x))"
        using True by (simp add: fk keep_best_def)
      moreover have "\<forall>l<length (xs @ [x]). f ((xs @ [x]) ! l) \<le> f x"
        using mx True by (auto simp: nth_append less_Suc_eq)
      moreover have "\<forall>l<length xs. f ((xs @ [x]) ! l) < f x"
        using mx True by (auto simp: nth_append)
      ultimately show ?thesis
        by (intro exI[of _ "length xs"]) simp
    next
      case F: False
      have "fold (keep_best f) (xs @ [x]) (bestMove, NegInfinity) = (xs ! k, Num (f (xs ! k)))"
        using F by (simp add: fk keep_best_def)
      moreover have "\<forall>l<length (xs @ [x]). f ((xs @ [x]) ! l) \<le> f (xs ! k)"
        using mx F by (auto simp: nth_append less_Suc_eq)
      moreover have "\<forall>l<k. f ((xs @ [x]) ! l) < f (xs ! k)"
        using fst k by (auto simp: nth_append)
      ultimately show ?thesis
        using k by (intro exI[of _ k]) (simp add: nth_append)
    qed
  qed
qed

lemma makeComputerMove_loop_first_best:
  assumes wf: "wf_board board" and ne: "getAvailableMoves board \<noteq> []"
    and e: "empties board \<le> n"
  shows "\<exists>k<length (getAvailableMoves board).
           makeComputerMove_loop n (getAvailableMoves board) bestMove NegInfinity board =
             Some (Inr (getAvailableMoves board ! k,
                        Num (game_value n (put board (getAvailableMoves board ! k) ''O'') 0 False),
                        board)) \<and>
           (\<forall>l<length (getAvailableMoves board).
              game_value n (put board (getAvailableMoves board ! l) ''O'') 0 False
              \<le> game_value n (put board (getAvailableMoves board ! k) ''O'') 0 False) \<and>
           (\<forall>l<k.
              game_value n (put board (getAvailableMoves board ! l) ''O'') 0 False
              < game_value n (put board (getAvailableMoves board ! k) ''O'') 0 False)"
proof -
  let ?f = "\<lambda>mv. game_value n (put board mv ''O'') 0 False"
  let ?ms = "getAvailableMoves board"
  from fold_keep_best_first[OF ne, of ?f bestMove] obtain k where k: "k < length ?ms"
    and fk: "fold (keep_best ?f) ?ms (bestMove, NegInfinity) = (?ms ! k, Num (?f (?ms ! k)))"
    and mx: "\<forall>l<length ?ms. ?f (?ms ! l) \<le> ?f (?ms ! k)"
    and fst: "\<forall>l<k. ?f (?ms ! l) < ?f (?ms ! k)"
    by blast
  have "makeComputerMove_loop n ?ms bestMove NegInfinity board =
        Some (Inr (?ms ! k, Num (?f (?ms ! k)), board))"
    using makeComputerMove_loop_fold[OF wf e, of ?ms bestMove NegInfinity] by (simp add: fk)
  with k mx fst show ?thesis by blast
qed

lemma sentinel_not_in_grid: "\<not> in_grid \<lparr>move_i = - 1, move_j = - 1\<rparr>"
  by (simp add: in_grid_def)

lemma example_board_wf: "wf_board [[''O'', ''O'', ''''], [''X'', ''X'', ''''], [''X'', '''', '''']]"
  by (simp add: wf_board_def)

lemma example_board_moves:
  "getAvailableMoves [[''O'', ''O'', ''''], [''X'', ''X'', ''''], [''X'', '''', '''']] =
   [\<lparr>move_i = 0, move_j = 2\<rparr>, \<lparr>move_i = 1, move_j = 2\<rparr>,
    \<lparr>move_i = 2, move_j = 1\<rparr>, \<lparr>move_i = 2, move_j = 2\<rparr>]"
  by (simp add: getAvailableMoves_filter all_moves_def cell_at_def)

lemma example_board_empties: "empties [[''O'', ''O'', ''''], [''X'', ''X'', ''''], [''X'', '''', '''']] \<le> 4"
  by (simp add: empties_def example_board_moves)

section \<open>Bounds on the game value\<close>

lemma win_lines_in_grid: "line \<in> set win_lines \<Longrightarrow> mv \<in> set line \<Longrightarrow> in_grid mv"
  by (auto simp: win_lines_def in_grid_def)

lemma no_new_line:
  assumes wf: "wf_board board" and g: "in_grid mv" and v: "v \<noteq> player"
    and n: "\<not> checkWinner board player"
  shows "\<not> checkWinner (put board mv v) player"
proof
  assume "checkWinner (put board mv v) player"
  then obtain line where l: "line \<in> set win_lines"
    and a: "\<forall>mv' \<in> set line. cell_at (put board mv v) mv' = player"
    unfolding checkWinner_lines by blast
  have "\<forall>mv' \<in> set line. cell_at board mv' = player"
  proof
    fix mv' assume m: "mv' \<in> set line"
    have g': "in_grid mv'" by (rule win_lines_in_grid[OF l m])
    from a m have "cell_at (put board mv v) mv' = player" by blast
    then show "cell_at board mv' = player"
      using v by (simp add: cell_at_put[OF wf g g'] split: if_splits)
  qed
  with l have "checkWinner board player" unfolding checkWinner_lines by blast
  with n show False by contradiction
qed

lemma empties_pos: "mv \<in> set (getAvailableMoves board) \<Longrightarrow> 0 < empties board"
  by (auto simp: empties_def)

lemma game_value_upper:
  "wf_board board \<Longrightarrow> \<not> checkWinner board ''O'' \<Longrightarrow>
   depth + int (empties board) \<le> 9 \<Longrightarrow> empties board < n \<Longrightarrow>
   game_value n board depth isMaximizing \<le> 9 - depth"
proof (induction n arbitrary: board depth isMaximizing)
  case 0
  then show ?case by simp
next
  case (Suc n)
  note wf = Suc.prems(1) and no = Suc.prems(2) and de = Suc.prems(3) and en = Suc.prems(4)
  let ?ms = "getAvailableMoves board"
  show ?case
  proof (cases "checkWinner board ''X'' \<or> isBoardFull board")
    case True
    then show ?thesis using no de by auto
  next
    case False
    then have ne: "?ms \<noteq> []" by (simp add: isBoardFull_iff)
    have child: "game_value n (put board mv v) (depth + 1) r \<le> 9 - depth"
      if m: "mv \<in> set ?ms" and v: "v = ''O'' \<or> v = ''X''" for mv v r
    proof -
      have vne: "v \<noteq> ''''" using v by auto
      note t = try_move[OF wf m vne]
      obtain n' where n': "n = Suc n'"
        using empties_pos[OF m] en by (cases n) auto
      show ?thesis
      proof (cases "checkWinner (put board mv v) ''O''")
        case True
        then show ?thesis by (simp add: n')
      next
        case F: False
        have "game_value n (put board mv v) (depth + 1) r \<le> 9 - (depth + 1)"
          using t(3) de en by (intro Suc.IH t(2) F) auto
        then show ?thesis by simp
      qed
    qed
    show ?thesis
    proof (cases isMaximizing)
      case True
      have "Max ((\<lambda>mv. game_value n (put board mv ''O'') (depth + 1) False) ` set ?ms) \<le> 9 - depth"
        using ne child by (subst Max_le_iff) auto
      then show ?thesis using False no True by simp
    next
      case F: False
      obtain mv where m: "mv \<in> set ?ms" using ne by (cases ?ms) auto
      have g: "in_grid mv" using m by (simp add: set_getAvailableMoves)
      have nl: "\<not> checkWinner (put board mv ''X'') ''O''"
        by (rule no_new_line[OF wf g _ no]) simp
      note t = try_move[OF wf m, of "''X''", simplified]
      have "game_value n (put board mv ''X'') (depth + 1) True \<le> 9 - (depth + 1)"
        using t(3) de en by (intro Suc.IH t(2) nl) auto
      then have "Min ((\<lambda>mv. game_value n (put board mv ''X'') (depth + 1) True) ` set ?ms) \<le> 9 - depth"
        using m by (subst Min_le_iff) (auto intro!: bexI[of _ mv])
      then show ?thesis using False no F by simp
    qed
  qed
qed

lemma wins_in_one_lower:
  assumes wf: "wf_board board" and w: "wins_in_one board" and en: "empties board < n"
  shows "9 - depth \<le> game_value n board depth True"
proof -
  let ?ms = "getAvailableMoves board"
  from w obtain mv where nt: "non_terminal board" and m: "mv \<in> set ?ms"
    and c: "checkWinner (put board mv ''O'') ''O''"
    by (auto simp: wins_in_one_def list_ex_iff)
  obtain n1 where n1: "n = Suc n1" using en by (cases n) auto
  obtain n2 where n2: "n1 = Suc n2"
    using empties_pos[OF m] en n1 by (cases n1) auto
  have "game_value n1 (put board mv ''O'') (depth + 1) False = 9 - depth"
    using c by (simp add: n2)
  then have "9 - depth \<le> Max ((\<lambda>mv. game_value n1 (put board mv ''O'') (depth + 1) False) ` set ?ms)"
    using m by (subst Max_ge_iff) (auto intro!: bexI[of _ mv])
  then show ?thesis using nt by (simp add: n1 non_terminal_def)
qed



lemma non_terminal_moves: "non_terminal board \<Longrightarrow> getAvailableMoves board \<noteq> []"
  by (simp add: non_terminal_def isBoardFull_iff)

lemma wins_in_three_value:
  assumes wf: "wf_board board" and w3: "wins_in_three board"
    and de: "depth + int (empties board) \<le> 9" and en: "empties board < n"
  shows "game_value n board depth True = 7 - depth"
proof -
  let ?ms = "getAvailableMoves board"
  let ?f = "\<lambda>mv. game_value (n - 1) (put board mv ''O'') (depth + 1) False"
  from w3 obtain mv0 where nt: "non_terminal board" and n1: "\<not> wins_in_one board"
    and m0: "mv0 \<in> set ?ms" and nt0: "non_terminal (put board mv0 ''O'')"
    and all0: "\<forall>mv' \<in> set (getAvailableMoves (put board mv0 ''O'')).
                 wins_in_one (put (put board mv0 ''O'') mv' ''X'')"
    by (auto simp: wins_in_three_def list_ex_iff list_all_iff)
  let ?c0 = "put board mv0 ''O''"
  note t0 = try_move[OF wf m0, of "''O''", simplified]
  obtain mv1 where m1: "mv1 \<in> set (getAvailableMoves ?c0)"
    using non_terminal_moves[OF nt0] by (cases "getAvailableMoves ?c0") auto
  note t1 = try_move[OF t0(2) m1, of "''X''", simplified]
  have "wins_in_one (put ?c0 mv1 ''X'')" using all0 m1 by blast
  then have "getAvailableMoves (put ?c0 mv1 ''X'') \<noteq> []"
    by (simp add: wins_in_one_def non_terminal_moves)
  then have "0 < empties (put ?c0 mv1 ''X'')" by (simp add: empties_def)
  with t0(3) t1(3) have e3: "3 \<le> empties board" by simp
  obtain n' where n: "n = Suc (Suc n')"
    using e3 en by (cases n; cases "n - 1") auto
  have upper: "?f mv \<le> 7 - depth" if m: "mv \<in> set ?ms" for mv
  proof -
    let ?c = "put board mv ''O''"
    note t = try_move[OF wf m, of "''O''", simplified]
    have no: "\<not> checkWinner ?c ''O''"
      using n1 nt m by (auto simp: wins_in_one_def list_ex_iff)
    show ?thesis
    proof (cases "checkWinner ?c ''X'' \<or> isBoardFull ?c")
      case True
      then show ?thesis using no de e3 by (auto simp: n)
    next
      case False
      then obtain mv' where m': "mv' \<in> set (getAvailableMoves ?c)"
        by (cases "getAvailableMoves ?c") (auto simp: isBoardFull_iff)
      let ?g = "put ?c mv' ''X''"
      note t' = try_move[OF t(2) m', of "''X''", simplified]
      have g': "in_grid mv'" using m' by (simp add: set_getAvailableMoves)
      have nl: "\<not> checkWinner ?g ''O''"
        by (rule no_new_line[OF t(2) g' _ no]) simp
      have "game_value n' ?g (depth + 1 + 1) True \<le> 9 - (depth + 1 + 1)"
        using t(3) t'(3) de en n by (intro game_value_upper t'(2) nl) auto
      then have "Min ((\<lambda>mv'. game_value n' (put ?c mv' ''X'') (depth + 1 + 1) True)
                    ` set (getAvailableMoves ?c)) \<le> 7 - depth"
        using m' by (subst Min_le_iff) (auto intro!: bexI[of _ mv'])
      then show ?thesis using False no by (simp add: n)
    qed
  qed
  have lower: "7 - depth \<le> ?f mv0"
  proof -
    have "7 - depth \<le> game_value n' (put ?c0 mv' ''X'') (depth + 1 + 1) True"
      if m': "mv' \<in> set (getAvailableMoves ?c0)" for mv'
    proof -
      note t' = try_move[OF t0(2) m', of "''X''", simplified]
      have w: "wins_in_one (put ?c0 mv' ''X'')" using all0 m' by blast
      have "9 - (depth + 1 + 1) \<le> game_value n' (put ?c0 mv' ''X'') (depth + 1 + 1) True"
        using t0(3) t'(3) en n by (intro wins_in_one_lower t'(2) w) auto
      then show ?thesis by simp
    qed
    then have "7 - depth \<le> Min ((\<lambda>mv'. game_value n' (put ?c0 mv' ''X'') (depth + 1 + 1) True)
                    ` set (getAvailableMoves ?c0))"
      using non_terminal_moves[OF nt0] by (subst Min_ge_iff) auto
    then show ?thesis using nt0 by (simp add: n non_terminal_def)
  qed
  have ne: "?ms \<noteq> []" by (rule non_terminal_moves[OF nt])
  have "Max (?f ` set ?ms) \<le> 7 - depth"
    using ne upper by (subst Max_le_iff) auto
  moreover have "7 - depth \<le> Max (?f ` set ?ms)"
    using m0 lower by (subst Max_ge_iff) (auto intro!: bexI[of _ mv0])
  ultimately have "Max (?f ` set ?ms) = 7 - depth" by simp
  then show ?thesis using nt by (simp add: n non_terminal_def)
qed

lemma two_boards_facts:
  "wf_board [['''', '''', ''''], [''X'', '''', ''O''], [''X'', ''X'', ''O'']]"
  "wf_board [['''', '''', ''''], [''X'', '''', ''X''], [''O'', ''X'', ''O'']]"
  "wins_in_one [['''', '''', ''''], [''X'', '''', ''O''], [''X'', ''X'', ''O'']]"
  "wins_in_three [['''', '''', ''''], [''X'', '''', ''X''], [''O'', ''X'', ''O'']]"
  "empties [['''', '''', ''''], [''X'', '''', ''O''], [''X'', ''X'', ''O'']] = 4"
  "empties [['''', '''', ''''], [''X'', '''', ''X''], [''O'', ''X'', ''O'']] = 4"
  by code_simp+

section \<open>The value of the empty board\<close>

lemma exists_reply_sound:
  assumes "exists_reply ok mark order board" and "set order \<subseteq> set all_moves"
  shows "\<exists>mv \<in> set (getAvailableMoves board). ok (put board mv mark)"
  using assms
proof (induction order)
  case Nil
  then show ?case by simp
next
  case (Cons mv order)
  show ?case
  proof (cases "cell_at board mv = '''' \<and> ok (put board mv mark)")
    case True
    moreover have "in_grid mv" using Cons.prems(2) by (simp add: in_grid_all_moves)
    ultimately have "mv \<in> set (getAvailableMoves board)"
      by (simp add: set_getAvailableMoves)
    with True show ?thesis by blast
  next
    case False
    then have "exists_reply ok mark order board"
      using Cons.prems(1) by (auto split: if_splits)
    then show ?thesis using Cons.IH Cons.prems(2) by simp
  qed
qed

lemma all_replies_sound:
  "all_replies ok mark ms board \<Longrightarrow> \<forall>mv \<in> set ms. ok (put board mv mark)"
  by (induction ms) (auto split: if_splits)

lemma value_at_least_sound:
  "value_at_least order k n board depth isMaximizing \<Longrightarrow> set order \<subseteq> set all_moves \<Longrightarrow>
   n \<le> n' \<Longrightarrow> k \<le> game_value n' board depth isMaximizing"
proof (induction n arbitrary: n' board depth isMaximizing)
  case 0
  then show ?case by simp
next
  case (Suc n)
  from Suc.prems(3) obtain m' where n': "n' = Suc m'" and le: "n \<le> m'"
    by (cases n') auto
  let ?ms = "getAvailableMoves board"
  show ?case
  proof (cases "checkWinner board ''O'' \<or> checkWinner board ''X'' \<or> isBoardFull board")
    case True
    then show ?thesis using Suc.prems(1) by (auto simp: n' split: if_splits)
  next
    case False
    then have ne: "?ms \<noteq> []" by (simp add: isBoardFull_iff)
    show ?thesis
    proof (cases isMaximizing)
      case True
      have "exists_reply (\<lambda>b. value_at_least order k n b (depth + 1) False) ''O'' order board"
        using Suc.prems(1) False True by simp
      from exists_reply_sound[OF this Suc.prems(2)] obtain mv where m: "mv \<in> set ?ms"
        and v: "value_at_least order k n (put board mv ''O'') (depth + 1) False"
        by blast
      have "k \<le> game_value m' (put board mv ''O'') (depth + 1) False"
        by (rule Suc.IH[OF v Suc.prems(2) le])
      then have "k \<le> Max ((\<lambda>mv. game_value m' (put board mv ''O'') (depth + 1) False) ` set ?ms)"
        using m by (subst Max_ge_iff) (auto intro!: bexI[of _ mv])
      then show ?thesis using False True by (simp add: n')
    next
      case F: False
      have "all_replies (\<lambda>b. value_at_least order k n b (depth + 1) True) ''X'' ?ms board"
        using Suc.prems(1) False F by simp
      from all_replies_sound[OF this]
      have "\<forall>mv \<in> set ?ms. k \<le> game_value m' (put board mv ''X'') (depth + 1) True"
        using Suc.IH[OF _ Suc.prems(2) le] by blast
      then have "k \<le> Min ((\<lambda>mv. game_value m' (put board mv ''X'') (depth + 1) True) ` set ?ms)"
        using ne by (subst Min_ge_iff) auto
      then show ?thesis using False F by (simp add: n')
    qed
  qed
qed

lemma value_at_most_sound:
  "value_at_most order k n board depth isMaximizing \<Longrightarrow> set order \<subseteq> set all_moves \<Longrightarrow>
   n \<le> n' \<Longrightarrow> game_value n' board depth isMaximizing \<le> k"
proof (induction n arbitrary: n' board depth isMaximizing)
  case 0
  then show ?case by simp
next
  case (Suc n)
  from Suc.prems(3) obtain m' where n': "n' = Suc m'" and le: "n \<le> m'"
    by (cases n') auto
  let ?ms = "getAvailableMoves board"
  show ?case
  proof (cases "checkWinner board ''O'' \<or> checkWinner board ''X'' \<or> isBoardFull board")
    case True
    then show ?thesis using Suc.prems(1) by (auto simp: n' split: if_splits)
  next
    case False
    then have ne: "?ms \<noteq> []" by (simp add: isBoardFull_iff)
    show ?thesis
    proof (cases isMaximizing)
      case True
      have "all_replies (\<lambda>b. value_at_most order k n b (depth + 1) False) ''O'' ?ms board"
        using Suc.prems(1) False True by simp
      from all_replies_sound[OF this]
      have "\<forall>mv \<in> set ?ms. game_value m' (put board mv ''O'') (depth + 1) False \<le> k"
        using Suc.IH[OF _ Suc.prems(2) le] by blast
      then have "Max ((\<lambda>mv. game_value m' (put board mv ''O'') (depth + 1) False) ` set ?ms) \<le> k"
        using ne by (subst Max_le_iff) auto
      then show ?thesis using False True by (simp add: n')
    next
      case F: False
      have "exists_reply (\<lambda>b. value_at_most order k n b (depth + 1) True) ''X'' order board"
        using Suc.prems(1) False F by simp
      from exists_reply_sound[OF this Suc.prems(2)] obtain mv where m: "mv \<in> set ?ms"
        and v: "value_at_most order k n (put board mv ''X'') (depth + 1) True"
        by blast
      have "game_value m' (put board mv ''X'') (depth + 1) True \<le> k"
        by (rule Suc.IH[OF v Suc.prems(2) le])
      then have "Min ((\<lambda>mv. game_value m' (put board mv ''X'') (depth + 1) True) ` set ?ms) \<le> k"
        using m by (subst Min_le_iff) (auto intro!: bexI[of _ mv])
      then show ?thesis using False F by (simp add: n')
    qed
  qed
qed

lemma orders_in_grid:
  "set maximizer_order \<subseteq> set all_moves" "set minimizer_order \<subseteq> set all_moves"
  by (simp_all add: maximizer_order_def minimizer_order_def all_moves_def)

lemma empty_board_facts: "wf_board empty_board" "empties empty_board = 9"
  by (simp_all add: wf_board_def empty_board_def empties_def getAvailableMoves_filter
        all_moves_def cell_at_def)

lemma empty_board_at_least_0: "value_at_least maximizer_order 0 10 empty_board 0 True"
  by code_simp



lemma empty_board_at_most_0: "value_at_most minimizer_order 0 10 empty_board 0 True"
  by code_simp

lemma getAvailableMoves_sorted: "sorted_wrt row_major_before (getAvailableMoves board)"
  unfolding getAvailableMoves_filter using all_moves_sorted by (rule sorted_wrt_filter)

lemma legal_move_score:
  assumes "wf_board board" and "empties board \<le> n"
  shows "\<forall>l<length (getAvailableMoves board).
           \<exists>board1. store board (getAvailableMoves board ! l) ''O'' = Inr board1 \<and>
                    minimax n board1 0 False =
                      Some (Inr (Num (game_value n (put board (getAvailableMoves board ! l) ''O'') 0 False),
                                 board1))"
proof (intro allI impI)
  let ?ms = "getAvailableMoves board"
  fix l assume "l < length ?ms"
  then have m: "?ms ! l \<in> set ?ms" by simp
  note t = try_move[OF assms(1) m, of "''O''", simplified]
  have "minimax n (put board (?ms ! l) ''O'') 0 False =
        Some (Inr (Num (game_value n (put board (?ms ! l) ''O'') 0 False), put board (?ms ! l) ''O''))"
    using t(3) assms(2) by (intro minimax_game_value t(2)) simp
  with t(1) show "\<exists>board1. store board (?ms ! l) ''O'' = Inr board1 \<and>
                    minimax n board1 0 False =
                      Some (Inr (Num (game_value n (put board (?ms ! l) ''O'') 0 False), board1))"
    by blast
qed

section \<open>The claims\<close>

text \<open>
  Claim C1. For every board, role and depth, \<open>minimax\<close> tests in this order: a line
  of the maximizer \<open>''O''\<close> gives \<open>10 - depth\<close>; otherwise a line of the minimizer
  \<open>''X''\<close> gives \<open>depth - 10\<close>; otherwise a full board gives \<open>0\<close>; otherwise
  there is a legal move and the call runs the loop of its role over the legal moves.
  The board comes back as it was given in the three terminal cases. The depth is
  any integer with \<open>\<bar>depth\<bar> + 10 \<le> 2 ^ 53\<close>: there the two differences are
  integers of absolute value at most \<open>2 ^ 53\<close>, which JavaScript's numbers hold
  exactly.
\<close>

theorem minimax_terminal_order:
  assumes "wf_board board" and "\<bar>depth\<bar> + 10 \<le> 2 ^ 53"
  shows "(checkWinner board ''O'' \<longrightarrow>
            minimax (Suc n) board depth isMaximizing = Some (Inr (Num (10 - depth), board))) \<and>
         (\<not> checkWinner board ''O'' \<and> checkWinner board ''X'' \<longrightarrow>
            minimax (Suc n) board depth isMaximizing = Some (Inr (Num (depth - 10), board))) \<and>
         (\<not> checkWinner board ''O'' \<and> \<not> checkWinner board ''X'' \<and> isBoardFull board \<longrightarrow>
            minimax (Suc n) board depth isMaximizing = Some (Inr (Num 0, board))) \<and>
         (\<not> checkWinner board ''O'' \<and> \<not> checkWinner board ''X'' \<and> \<not> isBoardFull board \<longrightarrow>
            getAvailableMoves board \<noteq> [] \<and>
            minimax (Suc n) board depth isMaximizing =
              (if isMaximizing
               then minimax_max_loop (minimax n) (getAvailableMoves board) depth NegInfinity board
               else minimax_min_loop (minimax n) (getAvailableMoves board) depth Infinity board))"
  by (simp add: isBoardFull_iff)

theorem minimax_terminal_order_witness:
  "wf_board [[''O'', ''O'', ''O''], [''X'', ''X'', ''X''], [''O'', ''X'', ''X'']] \<and>
   \<bar>3 :: int\<bar> + 10 \<le> 2 ^ 53 \<and>
   checkWinner [[''O'', ''O'', ''O''], [''X'', ''X'', ''X''], [''O'', ''X'', ''X'']] ''O'' \<and>
   checkWinner [[''O'', ''O'', ''O''], [''X'', ''X'', ''X''], [''O'', ''X'', ''X'']] ''X'' \<and>
   isBoardFull [[''O'', ''O'', ''O''], [''X'', ''X'', ''X''], [''O'', ''X'', ''X'']] \<and>
   minimax (Suc 0) [[''O'', ''O'', ''O''], [''X'', ''X'', ''X''], [''O'', ''X'', ''X'']] 3 False =
     Some (Inr (Num 7, [[''O'', ''O'', ''O''], [''X'', ''X'', ''X''], [''O'', ''X'', ''X'']]))"
proof -
  let ?b = "[[''O'', ''O'', ''O''], [''X'', ''X'', ''X''], [''O'', ''X'', ''X'']]"
  have w: "wf_board ?b" by (simp add: wf_board_def)
  have d: "\<bar>3 :: int\<bar> + 10 \<le> 2 ^ 53" by simp
  have o: "checkWinner ?b ''O''" by (simp add: checkWinner_def upt_0_3)
  have x: "checkWinner ?b ''X''" by (simp add: checkWinner_def upt_0_3)
  have f: "isBoardFull ?b" by (simp add: isBoardFull_def upt_0_3)
  from minimax_terminal_order[OF w d, of 0 False] o
  have "minimax (Suc 0) ?b 3 False = Some (Inr (Num 7, ?b))" by simp
  with w d o x f show ?thesis by simp
qed

text \<open>
  Claim C3. For every board, depth and role, a call of \<open>minimax\<close> that may recurse
  as deep as the board has free cells returns a finite score and leaves the board
  it was given. Inside the call, every iteration of the loop writes its mark,
  gets from the recursive call the board it passed, and clears the mark, so that
  the next iteration starts from the board given.
\<close>

theorem minimax_restores_board:
  assumes "wf_board board" and "empties board \<le> n"
  shows "(\<exists>score. minimax (Suc n) board depth isMaximizing = Some (Inr (Num score, board))) \<and>
         (\<forall>mv \<in> set (getAvailableMoves board).
            \<exists>board1 score1.
              store board mv (if isMaximizing then ''O'' else ''X'') = Inr board1 \<and>
              minimax n board1 (depth + 1) (\<not> isMaximizing) = Some (Inr (Num score1, board1)) \<and>
              store board1 mv '''' = Inr board)"
proof
  have "empties board < Suc n" using assms(2) by simp
  from minimax_game_value[OF assms(1) this]
  show "\<exists>score. minimax (Suc n) board depth isMaximizing = Some (Inr (Num score, board))"
    by blast
  show "\<forall>mv \<in> set (getAvailableMoves board).
            \<exists>board1 score1.
              store board mv (if isMaximizing then ''O'' else ''X'') = Inr board1 \<and>
              minimax n board1 (depth + 1) (\<not> isMaximizing) = Some (Inr (Num score1, board1)) \<and>
              store board1 mv '''' = Inr board"
  proof
    fix mv assume m: "mv \<in> set (getAvailableMoves board)"
    let ?mark = "if isMaximizing then ''O'' else ''X''"
    have ne: "?mark \<noteq> ''''" by simp
    note t = try_move[OF assms(1) m ne]
    have "empties (put board mv ?mark) < n" using t(3) assms(2) by simp
    from minimax_game_value[OF t(2) this] t(1) t(4)
    show "\<exists>board1 score1.
              store board mv ?mark = Inr board1 \<and>
              minimax n board1 (depth + 1) (\<not> isMaximizing) = Some (Inr (Num score1, board1)) \<and>
              store board1 mv '''' = Inr board"
      by blast
  qed
qed

theorem minimax_restores_board_witness:
  "wf_board [[''O'', ''X'', ''O''], [''X'', '''', ''''], [''X'', ''O'', '''']] \<and>
   empties [[''O'', ''X'', ''O''], [''X'', '''', ''''], [''X'', ''O'', '''']] \<le> 3 \<and>
   (\<exists>score. minimax (Suc 3) [[''O'', ''X'', ''O''], [''X'', '''', ''''], [''X'', ''O'', '''']] 0 True =
      Some (Inr (Num score, [[''O'', ''X'', ''O''], [''X'', '''', ''''], [''X'', ''O'', '''']])))"
proof -
  let ?b = "[[''O'', ''X'', ''O''], [''X'', '''', ''''], [''X'', ''O'', '''']]"
  have w: "wf_board ?b" by (simp add: wf_board_def)
  have e: "empties ?b \<le> 3"
    by (simp add: empties_def getAvailableMoves_filter all_moves_def cell_at_def)
  from minimax_restores_board[OF w e, of 0 True]
  have "\<exists>score. minimax (Suc 3) ?b 0 True = Some (Inr (Num score, ?b))" by blast
  with w e show ?thesis by blast
qed

text \<open>
  Claim C4. \<open>getAvailableMoves\<close> returns exactly the coordinates of the free cells
  of the grid, each once, in row-major order: it is the row-major list of the nine
  cells with the occupied ones left out.
\<close>

theorem getAvailableMoves_row_major:
  assumes "wf_board board"
  shows "getAvailableMoves board = filter (\<lambda>mv. cell_at board mv = '''') all_moves \<and>
         set (getAvailableMoves board) = {mv. in_grid mv \<and> cell_at board mv = ''''} \<and>
         distinct (getAvailableMoves board) \<and>
         sorted_wrt row_major_before (getAvailableMoves board)"
proof -
  have "set (getAvailableMoves board) = {mv. in_grid mv \<and> cell_at board mv = ''''}"
    using set_getAvailableMoves by blast
  moreover have "distinct (getAvailableMoves board)"
    unfolding getAvailableMoves_filter using all_moves_distinct by (rule distinct_filter)
  moreover have "sorted_wrt row_major_before (getAvailableMoves board)"
    unfolding getAvailableMoves_filter using all_moves_sorted by (rule sorted_wrt_filter)
  ultimately show ?thesis
    using getAvailableMoves_filter by simp
qed

theorem getAvailableMoves_row_major_witness:
  "wf_board [[''X'', '''', ''O''], ['''', ''X'', ''''], [''O'', '''', '''']] \<and>
   getAvailableMoves [[''X'', '''', ''O''], ['''', ''X'', ''''], [''O'', '''', '''']] =
     [\<lparr>move_i = 0, move_j = 1\<rparr>, \<lparr>move_i = 1, move_j = 0\<rparr>, \<lparr>move_i = 1, move_j = 2\<rparr>,
      \<lparr>move_i = 2, move_j = 1\<rparr>, \<lparr>move_i = 2, move_j = 2\<rparr>]"
proof -
  let ?b = "[[''X'', '''', ''O''], ['''', ''X'', ''''], [''O'', '''', '''']]"
  have w: "wf_board ?b" by (simp add: wf_board_def)
  show ?thesis
    using w getAvailableMoves_row_major[OF w] by (simp add: all_moves_def cell_at_def)
qed

text \<open>
  Claim C5. \<open>checkWinner board player\<close> is true exactly when one of the eight lines
  (three rows, three columns, two diagonals) has all three cells equal to
  \<open>player\<close>.
\<close>

theorem checkWinner_iff_line:
  assumes "wf_board board"
  shows "checkWinner board player \<longleftrightarrow>
         (\<exists>line \<in> set win_lines. \<forall>mv \<in> set line. cell_at board mv = player)"
  by (rule checkWinner_lines)

theorem checkWinner_iff_line_witness:
  "wf_board [[''O'', ''X'', ''''], [''X'', ''O'', ''''], [''X'', '''', ''O'']] \<and>
   checkWinner [[''O'', ''X'', ''''], [''X'', ''O'', ''''], [''X'', '''', ''O'']] ''O'' \<and>
   \<not> checkWinner [[''O'', ''X'', ''''], [''X'', ''O'', ''''], [''X'', '''', ''O'']] ''X''"
proof -
  let ?b = "[[''O'', ''X'', ''''], [''X'', ''O'', ''''], [''X'', '''', ''O'']]"
  have w: "wf_board ?b" by (simp add: wf_board_def)
  show ?thesis
    using w checkWinner_iff_line[OF w, of "''O''"] checkWinner_iff_line[OF w, of "''X''"]
    by (simp add: win_lines_def cell_at_def)
qed

text \<open>
  Claim C10. \<open>checkWinner\<close> does not check that \<open>player\<close> is a mark: with the
  empty string as player it is true on the empty board, and on every board with a
  line of three free cells.
\<close>

theorem checkWinner_empty_mark:
  "checkWinner empty_board '''' \<and>
   (\<forall>board. wf_board board \<longrightarrow>
      (\<exists>line \<in> set win_lines. \<forall>mv \<in> set line. cell_at board mv = '''') \<longrightarrow>
      checkWinner board '''')"
proof
  show "checkWinner empty_board ''''"
    by (simp add: checkWinner_def empty_board_def)
  show "\<forall>board. wf_board board \<longrightarrow>
      (\<exists>line \<in> set win_lines. \<forall>mv \<in> set line. cell_at board mv = '''') \<longrightarrow>
      checkWinner board ''''"
    using checkWinner_lines by blast
qed

theorem checkWinner_empty_mark_witness:
  "wf_board [[''X'', ''O'', ''X''], ['''', '''', ''''], [''O'', ''X'', ''O'']] \<and>
   checkWinner [[''X'', ''O'', ''X''], ['''', '''', ''''], [''O'', ''X'', ''O'']] ''''"
proof -
  let ?b = "[[''X'', ''O'', ''X''], ['''', '''', ''''], [''O'', ''X'', ''O'']]"
  have w: "wf_board ?b" by (simp add: wf_board_def)
  have l: "\<exists>line \<in> set win_lines. \<forall>mv \<in> set line. cell_at ?b mv = ''''"
    by (simp add: win_lines_def cell_at_def)
  from checkWinner_empty_mark have "checkWinner ?b ''''"
    using w l by blast
  with w show ?thesis by simp
qed

text \<open>
  Claim C2. On a board with a free cell, the loop of \<open>makeComputerMove\<close> goes
  through the legal moves in the order of \<open>getAvailableMoves\<close>, which is row-major,
  scores move \<open>l\<close> by writing \<open>''O''\<close> and calling \<open>minimax\<close> with depth \<open>0\<close> and
  the minimizer to move, and ends with \<open>bestMove\<close> the move of index \<open>k\<close> whose
  score is the greatest of all and strictly greater than the score of every earlier
  move. So every other move of that score comes later in row-major order.
\<close>

theorem makeComputerMove_first_best:
  assumes "wf_board board" and "getAvailableMoves board \<noteq> []" and "empties board \<le> n"
  shows "sorted_wrt row_major_before (getAvailableMoves board) \<and>
         (\<exists>k score.
           k < length (getAvailableMoves board) \<and>
           (\<forall>l<length (getAvailableMoves board).
              \<exists>board1. store board (getAvailableMoves board ! l) ''O'' = Inr board1 \<and>
                       minimax n board1 0 False = Some (Inr (Num (score l), board1))) \<and>
           makeComputerMove_loop n (getAvailableMoves board)
               \<lparr>move_i = - 1, move_j = - 1\<rparr> NegInfinity board =
             Some (Inr (getAvailableMoves board ! k, Num (score k), board)) \<and>
           (\<forall>l<length (getAvailableMoves board). score l \<le> score k) \<and>
           (\<forall>l<k. score l < score k) \<and>
           (\<forall>l<length (getAvailableMoves board).
              score l = score k \<and> l \<noteq> k \<longrightarrow>
              row_major_before (getAvailableMoves board ! k) (getAvailableMoves board ! l)))"
proof -
  let ?ms = "getAvailableMoves board"
  let ?score = "\<lambda>l. game_value n (put board (?ms ! l) ''O'') 0 False"
  from makeComputerMove_loop_first_best[OF assms] obtain k where k: "k < length ?ms"
    and r: "makeComputerMove_loop n ?ms \<lparr>move_i = - 1, move_j = - 1\<rparr> NegInfinity board =
            Some (Inr (?ms ! k, Num (?score k), board))"
    and mx: "\<forall>l<length ?ms. ?score l \<le> ?score k"
    and fst: "\<forall>l<k. ?score l < ?score k"
    by blast
  have sc: "\<forall>l<length ?ms.
              \<exists>board1. store board (?ms ! l) ''O'' = Inr board1 \<and>
                       minimax n board1 0 False = Some (Inr (Num (?score l), board1))"
  proof (intro allI impI)
    fix l assume "l < length ?ms"
    then have m: "?ms ! l \<in> set ?ms" by simp
    note t = try_move[OF assms(1) m, of "''O''", simplified]
    have "minimax n (put board (?ms ! l) ''O'') 0 False =
          Some (Inr (Num (?score l), put board (?ms ! l) ''O''))"
      using t(3) assms(3) by (intro minimax_game_value t(2)) simp
    with t(1) show "\<exists>board1. store board (?ms ! l) ''O'' = Inr board1 \<and>
                       minimax n board1 0 False = Some (Inr (Num (?score l), board1))"
      by blast
  qed
  have tie: "\<forall>l<length ?ms. ?score l = ?score k \<and> l \<noteq> k \<longrightarrow>
               row_major_before (?ms ! k) (?ms ! l)"
  proof (intro allI impI)
    fix l assume l: "l < length ?ms" and e: "?score l = ?score k \<and> l \<noteq> k"
    have "\<not> l < k" using fst e by auto
    with e have "k < l" by simp
    with l getAvailableMoves_sorted[of board] show "row_major_before (?ms ! k) (?ms ! l)"
      by (simp add: sorted_wrt_iff_nth_less)
  qed
  have "\<exists>k score.
           k < length ?ms \<and>
           (\<forall>l<length ?ms.
              \<exists>board1. store board (?ms ! l) ''O'' = Inr board1 \<and>
                       minimax n board1 0 False = Some (Inr (Num (score l), board1))) \<and>
           makeComputerMove_loop n ?ms \<lparr>move_i = - 1, move_j = - 1\<rparr> NegInfinity board =
             Some (Inr (?ms ! k, Num (score k), board)) \<and>
           (\<forall>l<length ?ms. score l \<le> score k) \<and>
           (\<forall>l<k. score l < score k) \<and>
           (\<forall>l<length ?ms. score l = score k \<and> l \<noteq> k \<longrightarrow>
              row_major_before (?ms ! k) (?ms ! l))"
    using k sc r mx fst tie
    by (intro exI[of _ k] exI[of _ ?score]) blast
  with getAvailableMoves_sorted show ?thesis by blast
qed

theorem makeComputerMove_first_best_witness:
  "wf_board [[''O'', ''O'', ''''], [''X'', ''X'', ''''], [''X'', '''', '''']] \<and>
   getAvailableMoves [[''O'', ''O'', ''''], [''X'', ''X'', ''''], [''X'', '''', '''']] \<noteq> [] \<and>
   empties [[''O'', ''O'', ''''], [''X'', ''X'', ''''], [''X'', '''', '''']] \<le> 4 \<and>
   (\<exists>k score.
      k < length (getAvailableMoves [[''O'', ''O'', ''''], [''X'', ''X'', ''''], [''X'', '''', '''']]) \<and>
      makeComputerMove_loop 4
          (getAvailableMoves [[''O'', ''O'', ''''], [''X'', ''X'', ''''], [''X'', '''', '''']])
          \<lparr>move_i = - 1, move_j = - 1\<rparr> NegInfinity
          [[''O'', ''O'', ''''], [''X'', ''X'', ''''], [''X'', '''', '''']] =
        Some (Inr (getAvailableMoves [[''O'', ''O'', ''''], [''X'', ''X'', ''''], [''X'', '''', '''']] ! k,
                   Num (score k),
                   [[''O'', ''O'', ''''], [''X'', ''X'', ''''], [''X'', '''', '''']])))"
proof -
  let ?b = "[[''O'', ''O'', ''''], [''X'', ''X'', ''''], [''X'', '''', '''']]"
  have ne: "getAvailableMoves ?b \<noteq> []" by (simp add: example_board_moves)
  from makeComputerMove_first_best[OF example_board_wf ne example_board_empties]
  have "\<exists>k score. k < length (getAvailableMoves ?b) \<and>
          makeComputerMove_loop 4 (getAvailableMoves ?b) \<lparr>move_i = - 1, move_j = - 1\<rparr> NegInfinity ?b =
          Some (Inr (getAvailableMoves ?b ! k, Num (score k), ?b))"
    by blast
  with example_board_wf ne example_board_empties show ?thesis by blast
qed

text \<open>
  Claim C8, as stated: \<open>makeComputerMove\<close> returns the coordinate to mark and leaves
  the marking to its caller. It does not: the function returns no value and writes
  the mark itself, so the board after the call differs from the board before.
\<close>

theorem makeComputerMove_marks_board_counterexample:
  "makeComputerMove 4 [[''O'', ''O'', ''''], [''X'', ''X'', ''''], [''X'', '''', '''']] =
     Some (Inr [[''O'', ''O'', ''O''], [''X'', ''X'', ''''], [''X'', '''', '''']]) \<and>
   [[''O'', ''O'', ''O''], [''X'', ''X'', ''''], [''X'', '''', '''']] \<noteq>
   [[''O'', ''O'', ''''], [''X'', ''X'', ''''], [''X'', '''', '''']]"
  by code_simp

text \<open>
  Claim C8, amended. On a board with a free cell and the computer to move,
  \<open>makeComputerMove\<close> selects the coordinate the computer should mark, which is the
  legal move of index \<open>k\<close> in \<open>getAvailableMoves\<close> whose score by \<open>minimax\<close> (on the
  board with \<open>''O''\<close> written there, depth \<open>0\<close>, the minimizer to move) is the
  greatest of all and strictly greater than that of every earlier move. It does not
  return that coordinate: it writes \<open>''O''\<close> into that cell of the board it is given
  and changes no other cell of the grid.
\<close>

theorem makeComputerMove_marks_board:
  assumes "wf_board board" and "getAvailableMoves board \<noteq> []" and "empties board \<le> n"
  shows "\<exists>k score board'.
           k < length (getAvailableMoves board) \<and>
           (\<forall>l<length (getAvailableMoves board).
              \<exists>board1. store board (getAvailableMoves board ! l) ''O'' = Inr board1 \<and>
                       minimax n board1 0 False = Some (Inr (Num (score l), board1))) \<and>
           (\<forall>l<length (getAvailableMoves board). score l \<le> score k) \<and>
           (\<forall>l<k. score l < score k) \<and>
           makeComputerMove_loop n (getAvailableMoves board)
               \<lparr>move_i = - 1, move_j = - 1\<rparr> NegInfinity board =
             Some (Inr (getAvailableMoves board ! k, Num (score k), board)) \<and>
           makeComputerMove n board = Some (Inr board') \<and>
           board' = put board (getAvailableMoves board ! k) ''O'' \<and>
           wf_board board' \<and> board' \<noteq> board \<and>
           cell_at board' (getAvailableMoves board ! k) = ''O'' \<and>
           (\<forall>mv'. in_grid mv' \<and> mv' \<noteq> getAvailableMoves board ! k \<longrightarrow>
                  cell_at board' mv' = cell_at board mv')"
proof -
  let ?ms = "getAvailableMoves board"
  let ?score = "\<lambda>l. game_value n (put board (?ms ! l) ''O'') 0 False"
  from makeComputerMove_loop_first_best[OF assms] obtain k where k: "k < length ?ms"
    and r: "makeComputerMove_loop n ?ms \<lparr>move_i = - 1, move_j = - 1\<rparr> NegInfinity board =
            Some (Inr (?ms ! k, Num (?score k), board))"
    and mx: "\<forall>l<length ?ms. ?score l \<le> ?score k"
    and fst: "\<forall>l<k. ?score l < ?score k"
    by blast
  let ?mv = "?ms ! k"
  have sc: "\<forall>l<length ?ms.
              \<exists>board1. store board (?ms ! l) ''O'' = Inr board1 \<and>
                       minimax n board1 0 False = Some (Inr (Num (?score l), board1))"
    using legal_move_score[OF assms(1,3)] by simp
  have m: "?mv \<in> set ?ms" using k by simp
  then have g: "in_grid ?mv" and c: "cell_at board ?mv = ''''"
    by (simp_all add: set_getAvailableMoves)
  have s: "store board ?mv ''O'' = Inr (put board ?mv ''O'')"
    by (rule store_put[OF assms(1) g])
  have res: "makeComputerMove n board = Some (Inr (put board ?mv ''O''))"
    by (simp add: makeComputerMove_def r s)
  have w: "wf_board (put board ?mv ''O'')" by (rule wf_board_put[OF assms(1)])
  have o: "cell_at (put board ?mv ''O'') ?mv = ''O''"
    by (simp add: cell_at_put[OF assms(1) g g])
  have d: "put board ?mv ''O'' \<noteq> board" using o c by auto
  have f: "\<forall>mv'. in_grid mv' \<and> mv' \<noteq> ?mv \<longrightarrow>
             cell_at (put board ?mv ''O'') mv' = cell_at board mv'"
    by (simp add: cell_at_put[OF assms(1) g])
  from k sc mx fst r res w d o f show ?thesis
    by (intro exI[of _ k] exI[of _ ?score] exI[of _ "put board ?mv ''O''"]) blast
qed

theorem makeComputerMove_marks_board_witness:
  "wf_board [[''O'', ''O'', ''''], [''X'', ''X'', ''''], [''X'', '''', '''']] \<and>
   getAvailableMoves [[''O'', ''O'', ''''], [''X'', ''X'', ''''], [''X'', '''', '''']] \<noteq> [] \<and>
   empties [[''O'', ''O'', ''''], [''X'', ''X'', ''''], [''X'', '''', '''']] \<le> 4 \<and>
   (\<exists>k score board'.
      k < length (getAvailableMoves [[''O'', ''O'', ''''], [''X'', ''X'', ''''], [''X'', '''', '''']]) \<and>
      makeComputerMove_loop 4
          (getAvailableMoves [[''O'', ''O'', ''''], [''X'', ''X'', ''''], [''X'', '''', '''']])
          \<lparr>move_i = - 1, move_j = - 1\<rparr> NegInfinity
          [[''O'', ''O'', ''''], [''X'', ''X'', ''''], [''X'', '''', '''']] =
        Some (Inr (getAvailableMoves [[''O'', ''O'', ''''], [''X'', ''X'', ''''], [''X'', '''', '''']] ! k,
                   Num (score k),
                   [[''O'', ''O'', ''''], [''X'', ''X'', ''''], [''X'', '''', '''']])) \<and>
      makeComputerMove 4 [[''O'', ''O'', ''''], [''X'', ''X'', ''''], [''X'', '''', '''']] =
        Some (Inr board') \<and>
      board' =
        put [[''O'', ''O'', ''''], [''X'', ''X'', ''''], [''X'', '''', '''']]
          (getAvailableMoves [[''O'', ''O'', ''''], [''X'', ''X'', ''''], [''X'', '''', '''']] ! k) ''O'' \<and>
      board' \<noteq> [[''O'', ''O'', ''''], [''X'', ''X'', ''''], [''X'', '''', '''']])"
proof -
  let ?b = "[[''O'', ''O'', ''''], [''X'', ''X'', ''''], [''X'', '''', '''']]"
  have ne: "getAvailableMoves ?b \<noteq> []" by (simp add: example_board_moves)
  from makeComputerMove_marks_board[OF example_board_wf ne example_board_empties]
  have "\<exists>k score board'.
      k < length (getAvailableMoves ?b) \<and>
      makeComputerMove_loop 4 (getAvailableMoves ?b) \<lparr>move_i = - 1, move_j = - 1\<rparr> NegInfinity ?b =
        Some (Inr (getAvailableMoves ?b ! k, Num (score k), ?b)) \<and>
      makeComputerMove 4 ?b = Some (Inr board') \<and>
      board' = put ?b (getAvailableMoves ?b ! k) ''O'' \<and>
      board' \<noteq> ?b"
    by blast
  with example_board_wf ne example_board_empties show ?thesis by blast
qed

text \<open>
  Claim C9. On a board with a free cell, \<open>bestMove\<close> at the end of the loop of
  \<open>makeComputerMove\<close> is one of the legal moves and not the initial
  \<open>{ i: -1, j: -1 }\<close>, so the final write is inside the grid, succeeds, and
  marks a cell that was free in the board given.
\<close>

theorem makeComputerMove_writes_legal_cell:
  assumes "wf_board board" and "getAvailableMoves board \<noteq> []" and "empties board \<le> n"
  shows "\<exists>mv score.
           makeComputerMove_loop n (getAvailableMoves board)
               \<lparr>move_i = - 1, move_j = - 1\<rparr> NegInfinity board =
             Some (Inr (mv, Num score, board)) \<and>
           mv \<noteq> \<lparr>move_i = - 1, move_j = - 1\<rparr> \<and>
           mv \<in> set (getAvailableMoves board) \<and>
           in_grid mv \<and> cell_at board mv = '''' \<and>
           store board mv ''O'' = Inr (put board mv ''O'') \<and>
           makeComputerMove n board = Some (Inr (put board mv ''O''))"
proof -
  let ?ms = "getAvailableMoves board"
  from makeComputerMove_loop_first_best[OF assms] obtain k where k: "k < length ?ms"
    and r: "makeComputerMove_loop n ?ms \<lparr>move_i = - 1, move_j = - 1\<rparr> NegInfinity board =
            Some (Inr (?ms ! k, Num (game_value n (put board (?ms ! k) ''O'') 0 False), board))"
    by blast
  have m: "?ms ! k \<in> set ?ms" using k by simp
  then have g: "in_grid (?ms ! k)" and c: "cell_at board (?ms ! k) = ''''"
    by (simp_all add: set_getAvailableMoves)
  have n: "?ms ! k \<noteq> \<lparr>move_i = - 1, move_j = - 1\<rparr>"
    using g sentinel_not_in_grid by auto
  have s: "store board (?ms ! k) ''O'' = Inr (put board (?ms ! k) ''O'')"
    by (rule store_put[OF assms(1) g])
  have "makeComputerMove n board = Some (Inr (put board (?ms ! k) ''O''))"
    by (simp add: makeComputerMove_def r s)
  with r n m g c s show ?thesis by blast
qed

theorem makeComputerMove_writes_legal_cell_witness:
  "wf_board [[''O'', ''O'', ''''], [''X'', ''X'', ''''], [''X'', '''', '''']] \<and>
   getAvailableMoves [[''O'', ''O'', ''''], [''X'', ''X'', ''''], [''X'', '''', '''']] \<noteq> [] \<and>
   empties [[''O'', ''O'', ''''], [''X'', ''X'', ''''], [''X'', '''', '''']] \<le> 4 \<and>
   (\<exists>mv. mv \<noteq> \<lparr>move_i = - 1, move_j = - 1\<rparr> \<and> in_grid mv \<and>
      cell_at [[''O'', ''O'', ''''], [''X'', ''X'', ''''], [''X'', '''', '''']] mv = '''' \<and>
      makeComputerMove 4 [[''O'', ''O'', ''''], [''X'', ''X'', ''''], [''X'', '''', '''']] =
        Some (Inr (put [[''O'', ''O'', ''''], [''X'', ''X'', ''''], [''X'', '''', '''']] mv ''O'')))"
proof -
  let ?b = "[[''O'', ''O'', ''''], [''X'', ''X'', ''''], [''X'', '''', '''']]"
  have ne: "getAvailableMoves ?b \<noteq> []" by (simp add: example_board_moves)
  from makeComputerMove_writes_legal_cell[OF example_board_wf ne example_board_empties]
  have "\<exists>mv. mv \<noteq> \<lparr>move_i = - 1, move_j = - 1\<rparr> \<and> in_grid mv \<and> cell_at ?b mv = '''' \<and>
          makeComputerMove 4 ?b = Some (Inr (put ?b mv ''O''))"
    by blast
  with example_board_wf ne example_board_empties show ?thesis by blast
qed

text \<open>
  Claim C7. With the maximizer to move, at a depth the search reaches (from 0 on,
  and with the free cells of the three-move board at most 9; the program calls
  \<open>minimax\<close> with depth 0 and adds one for every mark it writes), a board on
  which the maximizer can win with one further move scores at least \<open>9 - depth\<close>,
  a board on which it can force a win with three further moves and not with one
  scores exactly \<open>7 - depth\<close>, and so the first scores strictly higher.
\<close>

theorem faster_win_scores_higher:
  assumes "wf_board board1" and "wf_board board3"
    and "wins_in_one board1" and "wins_in_three board3"
    and "depth + int (empties board3) \<le> 9"
    and "empties board1 < n" and "empties board3 < n"
    and "0 \<le> depth"
  shows "\<exists>score1 score3.
           minimax n board1 depth True = Some (Inr (Num score1, board1)) \<and>
           minimax n board3 depth True = Some (Inr (Num score3, board3)) \<and>
           9 - depth \<le> score1 \<and> score3 = 7 - depth \<and> score3 < score1"
proof -
  have 1: "minimax n board1 depth True = Some (Inr (Num (game_value n board1 depth True), board1))"
    by (rule minimax_game_value[OF assms(1,6)])
  have 3: "minimax n board3 depth True = Some (Inr (Num (game_value n board3 depth True), board3))"
    by (rule minimax_game_value[OF assms(2,7)])
  have l: "9 - depth \<le> game_value n board1 depth True"
    by (rule wins_in_one_lower[OF assms(1,3,6)])
  have v: "game_value n board3 depth True = 7 - depth"
    by (rule wins_in_three_value[OF assms(2,4,5,7)])
  from 1 3 l v show ?thesis by simp
qed

theorem faster_win_scores_higher_witness:
  "wf_board [['''', '''', ''''], [''X'', '''', ''O''], [''X'', ''X'', ''O'']] \<and>
   wf_board [['''', '''', ''''], [''X'', '''', ''X''], [''O'', ''X'', ''O'']] \<and>
   wins_in_one [['''', '''', ''''], [''X'', '''', ''O''], [''X'', ''X'', ''O'']] \<and>
   wins_in_three [['''', '''', ''''], [''X'', '''', ''X''], [''O'', ''X'', ''O'']] \<and>
   (0::int) + int (empties [['''', '''', ''''], [''X'', '''', ''X''], [''O'', ''X'', ''O'']]) \<le> 9 \<and>
   empties [['''', '''', ''''], [''X'', '''', ''O''], [''X'', ''X'', ''O'']] < 5 \<and>
   empties [['''', '''', ''''], [''X'', '''', ''X''], [''O'', ''X'', ''O'']] < 5 \<and>
   (0::int) \<le> 0 \<and>
   (\<exists>score1 score3.
      minimax 5 [['''', '''', ''''], [''X'', '''', ''O''], [''X'', ''X'', ''O'']] 0 True =
        Some (Inr (Num score1, [['''', '''', ''''], [''X'', '''', ''O''], [''X'', ''X'', ''O'']])) \<and>
      minimax 5 [['''', '''', ''''], [''X'', '''', ''X''], [''O'', ''X'', ''O'']] 0 True =
        Some (Inr (Num score3, [['''', '''', ''''], [''X'', '''', ''X''], [''O'', ''X'', ''O'']])) \<and>
      score3 = 7 \<and> score3 < score1)"
proof -
  let ?b1 = "[['''', '''', ''''], [''X'', '''', ''O''], [''X'', ''X'', ''O'']]"
  let ?b3 = "[['''', '''', ''''], [''X'', '''', ''X''], [''O'', ''X'', ''O'']]"
  have d: "(0::int) + int (empties ?b3) \<le> 9" and e1: "empties ?b1 < 5" and e3: "empties ?b3 < 5"
    by (simp_all add: two_boards_facts)
  have z: "(0::int) \<le> 0" by simp
  from faster_win_scores_higher[OF two_boards_facts(1,2,3,4) d e1 e3 z]
  have "\<exists>score1 score3.
      minimax 5 ?b1 0 True = Some (Inr (Num score1, ?b1)) \<and>
      minimax 5 ?b3 0 True = Some (Inr (Num score3, ?b3)) \<and>
      score3 = 7 \<and> score3 < score1"
    by auto
  with two_boards_facts d e1 e3 show ?thesis by simp
qed

text \<open>
  Claim C6. On the empty board, with depth 0 and the maximizer to move,
  \<open>minimax\<close> returns exactly 0 (and the empty board), for every bound on the
  recursion of at least 10, the nine moves of a game and the call on the full board.
\<close>

theorem minimax_empty_board_draw:
  assumes "10 \<le> n"
  shows "minimax n empty_board 0 True = Some (Inr (Num 0, empty_board))"
proof -
  have "0 \<le> game_value n empty_board 0 True"
    by (rule value_at_least_sound[OF empty_board_at_least_0 orders_in_grid(1) assms])
  moreover have "game_value n empty_board 0 True \<le> 0"
    by (rule value_at_most_sound[OF empty_board_at_most_0 orders_in_grid(2) assms])
  ultimately have "game_value n empty_board 0 True = 0" by simp
  moreover have "empties empty_board < n" using assms by (simp add: empty_board_facts)
  ultimately show ?thesis
    using minimax_game_value[OF empty_board_facts(1), of n 0 True] by simp
qed

theorem minimax_empty_board_draw_witness:
  "(10::nat) \<le> 10 \<and> minimax 10 empty_board 0 True = Some (Inr (Num 0, empty_board))"
  using minimax_empty_board_draw[of 10] by simp

end
